theory Spec2Isabelle
  imports Main "HOL-Library.Sublist" "HOL-Library.Word"
begin

section \<open>Python values\<close>

text \<open>
  The values that \<^verbatim>\<open>redact\<close> and \<^verbatim>\<open>DictWithStrictDefault.get\<close> of
  \<^verbatim>\<open>pylitterbot/utils.py\<close> inspect: \<^verbatim>\<open>None\<close>, booleans, integers, floats (the 64 bits
  of the IEEE double), strings, lists and dicts. A dict is the list of its items in insertion
  order; the keys of a Python dict are pairwise distinct (\<open>wf_value\<close> below), and the
  theorems hold for every item list, so in particular for those of dicts.
\<close>

datatype pyval =
    PNone
  | PBool bool
  | PInt int
  | PFloat "64 word"
  | PStr string
  | PList "pyval list"
  | PDict "(string \<times> pyval) list"

datatype py_error = KeyError | ValueError | UnicodeEncodeError | UnicodeDecodeError | BinasciiError

fun wf_value :: "pyval \<Rightarrow> bool" where
  "wf_value (PList xs) = list_all wf_value xs"
| "wf_value (PDict kvs) = (distinct (map fst kvs) \<and> list_all (\<lambda>(k, v). wf_value v) kvs)"
| "wf_value v = True"

fun is_mapping :: "pyval \<Rightarrow> bool" where
  "is_mapping (PDict kvs) = True"
| "is_mapping v = False"

fun is_list :: "pyval \<Rightarrow> bool" where
  "is_list (PList xs) = True"
| "is_list v = False"

section \<open>The redactor\<close>

definition REDACTED :: string where
  "REDACTED = ''**REDACTED**''"

definition REDACT_FIELDS :: "string list" where
  "REDACT_FIELDS =
    [''token'', ''idToken'', ''refreshToken'', ''userId'', ''userEmail'', ''sessionId'',
     ''oneSignalPlayerId'', ''deviceId'', ''id'', ''litterRobotId'', ''unitId'',
     ''litterRobotSerial'', ''serial'']"

text \<open>
  \<^verbatim>\<open>redact\<close>: a value that is neither a mapping nor a list is returned as it is; a list is
  redacted element by element; a mapping is copied and each item is visited in order, with
  the source's chain of tests: \<^verbatim>\<open>None\<close> and the empty string are skipped, then the key is
  looked up in \<^verbatim>\<open>REDACT_FIELDS\<close>, then the value is tested for being a mapping, then a list.
  The loop only rebinds values of keys that exist, so the keys and their order stay.
\<close>

fun redact :: "pyval \<Rightarrow> pyval" where
  "redact (PList xs) = PList (map redact xs)"
| "redact (PDict kvs) =
     PDict (map (\<lambda>(key, value).
        (key,
         if value = PNone then value
         else if value = PStr [] then value
         else if key \<in> set REDACT_FIELDS then PStr REDACTED
         else (case value of
                 PDict m \<Rightarrow> redact value
               | PList items \<Rightarrow> PList (map redact items)
               | _ \<Rightarrow> value))) kvs)"
| "redact v = v"

section \<open>The dict with a strict default\<close>

text \<open>
  \<^verbatim>\<open>DictWithStrictDefault.get(key, default)\<close>: \<^verbatim>\<open>key in self\<close> is \<open>contains_key\<close>,
  \<^verbatim>\<open>self[key]\<close> is \<open>getitem\<close>, which raises \<^verbatim>\<open>KeyError\<close> for a missing key. The source
  reads \<^verbatim>\<open>self[key]\<close> only behind the test \<^verbatim>\<open>key in self\<close>.
\<close>

definition contains_key :: "(string \<times> pyval) list \<Rightarrow> string \<Rightarrow> bool" where
  "contains_key self key = (key \<in> set (map fst self))"

definition getitem :: "(string \<times> pyval) list \<Rightarrow> string \<Rightarrow> py_error + pyval" where
  "getitem self key = (case map_of self key of None \<Rightarrow> Inl KeyError | Some v \<Rightarrow> Inr v)"

definition DictWithStrictDefault_get ::
    "(string \<times> pyval) list \<Rightarrow> string \<Rightarrow> pyval \<Rightarrow> py_error + pyval" where
  "DictWithStrictDefault_get self key dflt =
     (if contains_key self key then
        (case getitem self key of
           Inl e \<Rightarrow> Inl e
         | Inr v \<Rightarrow> if v \<noteq> PNone then getitem self key else Inr dflt)
      else Inr dflt)"

section \<open>Shapes\<close>

text \<open>
  The shape of a value, in the words of the specification: the keys of every mapping in
  their order, the length of every sequence and the nesting, without the scalar contents.
  \<open>collapse_sensitive\<close> replaces every subtree below a sensitive key by a scalar;
  \<open>sensitive_scalars\<close> holds when no sensitive key holds a mapping or a list, and
  \<open>has_sensitive_key\<close> when some mapping of the value has a sensitive key.
\<close>

datatype skeleton = SScalar | SList "skeleton list" | SDict "(string \<times> skeleton) list"

fun shape :: "pyval \<Rightarrow> skeleton" where
  "shape (PList xs) = SList (map shape xs)"
| "shape (PDict kvs) = SDict (map (\<lambda>(k, v). (k, shape v)) kvs)"
| "shape v = SScalar"

fun collapse_sensitive :: "skeleton \<Rightarrow> skeleton" where
  "collapse_sensitive (SList xs) = SList (map collapse_sensitive xs)"
| "collapse_sensitive (SDict kvs) =
     SDict (map (\<lambda>(k, s). (k, if k \<in> set REDACT_FIELDS then SScalar else collapse_sensitive s)) kvs)"
| "collapse_sensitive SScalar = SScalar"

fun sensitive_scalars :: "pyval \<Rightarrow> bool" where
  "sensitive_scalars (PList xs) = list_all sensitive_scalars xs"
| "sensitive_scalars (PDict kvs) =
     list_all (\<lambda>(k, v). if k \<in> set REDACT_FIELDS then \<not> is_mapping v \<and> \<not> is_list v
                          else sensitive_scalars v) kvs"
| "sensitive_scalars v = True"

fun has_sensitive_key :: "pyval \<Rightarrow> bool" where
  "has_sensitive_key (PList xs) = list_ex has_sensitive_key xs"
| "has_sensitive_key (PDict kvs) =
     list_ex (\<lambda>(k, v). k \<in> set REDACT_FIELDS \<or> has_sensitive_key v) kvs"
| "has_sensitive_key v = False"

section \<open>The timestamp normaliser\<close>

text \<open>
  \<^verbatim>\<open>to_timestamp\<close> edits the text of the timestamp and hands the result to
  \<^verbatim>\<open>datetime.fromisoformat\<close> of the Python standard library. A timestamp is a \<open>string\<close>
  whose characters are the code points below 256; on these the regular expression class
  \<^verbatim>\<open>\d\<close> matches exactly the ten ASCII digits.

  \<^verbatim>\<open>datetime.fromisoformat\<close> is not code of the repository. It is modelled after the format
  its documentation gives for Python 3.7 to 3.10, the parser that needs the edits made by
  \<^verbatim>\<open>to_timestamp\<close>:
  \<^verbatim>\<open>YYYY-MM-DD[*HH[:MM[:SS[.fff[fff]]]][+HH:MM[:SS[.ffffff]]]]\<close>, where \<^verbatim>\<open>*\<close> is any single
  character, followed by the range checks of the \<^verbatim>\<open>datetime\<close> and \<^verbatim>\<open>timezone\<close> constructors.
  Every failure is a \<^verbatim>\<open>ValueError\<close>. The result records the UTC offset in microseconds, or
  \<open>None\<close> for a naive datetime (one without \<^verbatim>\<open>tzinfo\<close>).
\<close>

record datetime =
  year :: int
  month :: int
  day :: int
  hour :: int
  minute :: int
  second :: int
  microsecond :: int
  tzinfo :: "int option"

subsection \<open>The parser of the library\<close>

definition is_digit :: "char \<Rightarrow> bool" where
  "is_digit c = (c \<in> set ''0123456789'')"

definition digit_value :: "char \<Rightarrow> int" where
  "digit_value c = of_char c - 48"

definition parse_digits :: "string \<Rightarrow> int option" where
  "parse_digits s =
     (if s \<noteq> [] \<and> list_all is_digit s
      then Some (foldl (\<lambda>n c. 10 * n + digit_value c) 0 s) else None)"

text \<open>
  The date \<^verbatim>\<open>YYYY-MM-DD\<close>: exactly ten characters, digits around two hyphens.
\<close>

definition parse_isoformat_date :: "string \<Rightarrow> py_error + (int \<times> int \<times> int)" where
  "parse_isoformat_date dtstr =
     (if length dtstr \<noteq> 10 then Inl ValueError
      else case (parse_digits (take 4 dtstr), parse_digits (take 2 (drop 5 dtstr)),
                 parse_digits (take 2 (drop 8 dtstr))) of
        (Some y, Some m, Some d) \<Rightarrow>
          if dtstr ! 4 = CHR ''-'' \<and> dtstr ! 7 = CHR ''-'' then Inr (y, m, d) else Inl ValueError
      | _ \<Rightarrow> Inl ValueError)"

text \<open>
  \<^verbatim>\<open>HH[:MM[:SS[.fff[fff]]]]\<close>, for the time and for the offset: up to three components of
  two digits with colons between them (\<open>time_comps\<close>, which returns them with the text
  that is left), then either nothing or a dot and three or six digits.
\<close>

function time_comps :: "nat \<Rightarrow> string \<Rightarrow> py_error + (int list \<times> string)" where
  "time_comps idx tstr =
     (if length tstr < 2 then Inl ValueError
      else case parse_digits (take 2 tstr) of
        None \<Rightarrow> Inl ValueError
      | Some v \<Rightarrow>
          (let rest = drop 2 tstr in
           if rest = [] \<or> idx \<ge> 2 then Inr ([v], rest)
           else if hd rest \<noteq> CHR '':'' then Inl ValueError
           else (case time_comps (Suc idx) (tl rest) of
                   Inl e \<Rightarrow> Inl e
                 | Inr (vs, r) \<Rightarrow> Inr (v # vs, r))))"
  by pat_completeness auto
termination
  by (relation "measure (\<lambda>(idx, tstr). 3 - idx)") auto

definition parse_hh_mm_ss_ff :: "string \<Rightarrow> py_error + (int \<times> int \<times> int \<times> int)" where
  "parse_hh_mm_ss_ff tstr =
     (case time_comps 0 tstr of
        Inl e \<Rightarrow> Inl e
      | Inr (vs, rest) \<Rightarrow>
          (let hms = vs @ replicate (3 - length vs) 0 in
           if rest = [] then Inr (hms ! 0, hms ! 1, hms ! 2, 0)
           else if hd rest \<noteq> CHR ''.'' then Inl ValueError
           else if length (tl rest) \<noteq> 3 \<and> length (tl rest) \<noteq> 6 then Inl ValueError
           else (case parse_digits (tl rest) of
                   None \<Rightarrow> Inl ValueError
                 | Some f \<Rightarrow>
                     Inr (hms ! 0, hms ! 1, hms ! 2, if length (tl rest) = 3 then f * 1000 else f))))"

text \<open>
  The time runs up to the first \<open>+\<close> or \<open>-\<close>; what follows the sign is the offset, of 5, 8
  or 15 characters and of less than 24 hours. Without a sign the result has no offset.
\<close>

definition is_sign :: "char \<Rightarrow> bool" where
  "is_sign c = (c = CHR ''+'' \<or> c = CHR ''-'')"

definition parse_isoformat_time ::
    "string \<Rightarrow> py_error + ((int \<times> int \<times> int \<times> int) \<times> int option)" where
  "parse_isoformat_time tstr =
     (if length tstr < 2 then Inl ValueError
      else case parse_hh_mm_ss_ff (takeWhile (\<lambda>c. \<not> is_sign c) tstr) of
        Inl e \<Rightarrow> Inl e
      | Inr comps \<Rightarrow>
          (case dropWhile (\<lambda>c. \<not> is_sign c) tstr of
             [] \<Rightarrow> Inr (comps, None)
           | sign_char # tzstr \<Rightarrow>
               if length tzstr \<notin> {5, 8, 15} then Inl ValueError
               else (case parse_hh_mm_ss_ff tzstr of
                       Inl e \<Rightarrow> Inl e
                     | Inr (h, m, s, us) \<Rightarrow>
                         (let td = (h * 3600 + m * 60 + s) * 1000000 + us;
                              offset = (if sign_char = CHR ''-'' then - td else td)
                          in if 86400000000 \<le> td then Inl ValueError
                             else Inr (comps, Some offset)))))"

text \<open>
  The constructor checks the ranges of its fields.
\<close>

definition days_in_month :: "int \<Rightarrow> int \<Rightarrow> int" where
  "days_in_month y m =
     (if m = 2 then (if y mod 4 = 0 \<and> (y mod 100 \<noteq> 0 \<or> y mod 400 = 0) then 29 else 28)
      else if m \<in> {4, 6, 9, 11} then 30 else 31)"

definition new_datetime ::
    "int \<times> int \<times> int \<Rightarrow> (int \<times> int \<times> int \<times> int) \<times> int option \<Rightarrow> py_error + datetime" where
  "new_datetime date_components time_components =
     (case (date_components, time_components) of
        ((y, mo, d), ((h, mi, s, us), tz)) \<Rightarrow>
          if 1 \<le> y \<and> y \<le> 9999 \<and> 1 \<le> mo \<and> mo \<le> 12 \<and> 1 \<le> d \<and> d \<le> days_in_month y mo
             \<and> h \<le> 23 \<and> mi \<le> 59 \<and> s \<le> 59 \<and> us \<le> 999999
          then Inr \<lparr>year = y, month = mo, day = d, hour = h, minute = mi, second = s,
                     microsecond = us, tzinfo = tz\<rparr>
          else Inl ValueError)"

text \<open>
  The first ten characters are the date, the eleventh is the separator (any character), the
  rest is the time.
\<close>

definition fromisoformat :: "string \<Rightarrow> py_error + datetime" where
  "fromisoformat date_string =
     (case parse_isoformat_date (take 10 date_string) of
        Inl e \<Rightarrow> Inl e
      | Inr date_components \<Rightarrow>
          if length date_string \<le> 10 then new_datetime date_components ((0, 0, 0, 0), None)
          else (case parse_isoformat_time (drop 11 date_string) of
                  Inl e \<Rightarrow> Inl e
                | Inr time_components \<Rightarrow> new_datetime date_components time_components))"

subsection \<open>The function of the repository\<close>

text \<open>
  \<^verbatim>\<open>re.sub(r"(\.\d+)", repl, s)\<close>: every match of a dot followed by one or more digits,
  found from left to right, greedy and without overlap, is replaced by \<open>repl\<close> of the matched
  text. \<open>pad_fraction\<close> is the replacement of the source, \<^verbatim>\<open>m.group().ljust(7, "0")[:7]\<close>.
\<close>

function re_sub_fraction :: "(string \<Rightarrow> string) \<Rightarrow> string \<Rightarrow> string" where
  "re_sub_fraction repl [] = []"
| "re_sub_fraction repl (c # cs) =
     (if c = CHR ''.'' \<and> takeWhile is_digit cs \<noteq> []
      then repl (c # takeWhile is_digit cs) @ re_sub_fraction repl (dropWhile is_digit cs)
      else c # re_sub_fraction repl cs)"
  by pat_completeness auto
termination
  by (relation "measure (\<lambda>(repl, s). length s)") (auto simp: length_dropWhile_le less_Suc_eq_le)

definition ljust :: "nat \<Rightarrow> char \<Rightarrow> string \<Rightarrow> string" where
  "ljust width fillchar s = s @ replicate (width - length s) fillchar"

definition pad_fraction :: "string \<Rightarrow> string" where
  "pad_fraction m = take 7 (ljust 7 (CHR ''0'') m)"

text \<open>
  Lines 52 to 56 of \<^verbatim>\<open>utils.py\<close>: every \<open>Z\<close> is deleted, \<open>+00:00\<close> is appended unless
  that text occurs in the string, and the fractions are rewritten. \<open>to_timestamp\<close> returns
  \<open>None\<close> for \<open>None\<close> and for the empty string, and otherwise what the parser makes of the
  normalised text; an error of the parser is not caught.
\<close>

definition normalize_timestamp :: "string \<Rightarrow> string" where
  "normalize_timestamp timestamp =
     (let ts1 = (if CHR ''Z'' \<in> set timestamp then filter (\<lambda>c. c \<noteq> CHR ''Z'') timestamp
                 else timestamp);
          utc_offset = ''+00:00'';
          ts2 = (if \<not> sublist utc_offset ts1 then ts1 @ utc_offset else ts1)
      in re_sub_fraction pad_fraction ts2)"

definition to_timestamp :: "string option \<Rightarrow> py_error + datetime option" where
  "to_timestamp timestamp =
     (case timestamp of
        None \<Rightarrow> Inr None
      | Some ts \<Rightarrow>
          if ts = [] then Inr None
          else (case fromisoformat (normalize_timestamp ts) of
                  Inl e \<Rightarrow> Inl e
                | Inr dt \<Rightarrow> Inr (Some dt)))"

section \<open>The codec\<close>

text \<open>
  \<^verbatim>\<open>encode\<close> and \<^verbatim>\<open>decode\<close> of \<^verbatim>\<open>utils.py\<close> compose functions of the Python standard
  library: \<^verbatim>\<open>str.encode\<close> and \<^verbatim>\<open>bytes.decode\<close> for UTF-8, \<^verbatim>\<open>base64.b64encode\<close> and
  \<^verbatim>\<open>base64.b64decode\<close>, and \<^verbatim>\<open>json.dumps\<close>. Here a Python \<^verbatim>\<open>str\<close> is the list of its code
  points (\<open>unicode\<close>; a code point is below \<open>0x110000\<close> and may be a surrogate), and
  \<^verbatim>\<open>bytes\<close> is a list of 8-bit words.

  The library functions are not code of the repository; they are modelled after their
  specifications. UTF-8 is the strict codec of Python (RFC 3629: no surrogates, no overlong
  forms, nothing above \<open>0x10FFFF\<close>). \<^verbatim>\<open>b64encode\<close> is RFC 4648 with padding.
  \<^verbatim>\<open>b64decode\<close> is called with its default \<^verbatim>\<open>validate=False\<close>: a \<^verbatim>\<open>str\<close> argument must be
  ASCII (else \<^verbatim>\<open>ValueError\<close>), and the bytes go through the lenient loop of
  \<^verbatim>\<open>binascii.a2b_base64\<close>, which skips every character outside the alphabet, stops at the
  padding that completes a group, and fails (\<^verbatim>\<open>binascii.Error\<close>) when the input ends inside
  a group. \<^verbatim>\<open>json.dumps\<close> is a parameter of \<open>encode\<close>: a function from the mapping to its
  text or an error.
\<close>

type_synonym byte = "8 word"

type_synonym unicode = "nat list"

definition byte_of :: "nat \<Rightarrow> byte" where
  "byte_of n = of_nat n"

definition emit :: "'a \<Rightarrow> py_error + 'a list \<Rightarrow> py_error + 'a list" where
  "emit x r = (case r of Inl e \<Rightarrow> Inl e | Inr xs \<Rightarrow> Inr (x # xs))"

subsection \<open>UTF-8\<close>

text \<open>
  \<^verbatim>\<open>str.encode("utf-8")\<close>: one to four bytes per code point; a surrogate is refused.
  \<open>utf8_encodable\<close> holds of the strings without surrogates.
\<close>

definition utf8_encode_char :: "nat \<Rightarrow> py_error + byte list" where
  "utf8_encode_char cp =
     (if cp < 0x80 then Inr [byte_of cp]
      else if cp < 0x800 then Inr [byte_of (0xC0 + cp div 64), byte_of (0x80 + cp mod 64)]
      else if 0xD800 \<le> cp \<and> cp \<le> 0xDFFF then Inl UnicodeEncodeError
      else if cp < 0x10000 then
        Inr [byte_of (0xE0 + cp div 4096), byte_of (0x80 + cp div 64 mod 64), byte_of (0x80 + cp mod 64)]
      else if cp < 0x110000 then
        Inr [byte_of (0xF0 + cp div 262144), byte_of (0x80 + cp div 4096 mod 64),
             byte_of (0x80 + cp div 64 mod 64), byte_of (0x80 + cp mod 64)]
      else Inl UnicodeEncodeError)"

fun utf8_encode :: "unicode \<Rightarrow> py_error + byte list" where
  "utf8_encode [] = Inr []"
| "utf8_encode (cp # s) =
     (case utf8_encode_char cp of
        Inl e \<Rightarrow> Inl e
      | Inr bs \<Rightarrow> (case utf8_encode s of Inl e \<Rightarrow> Inl e | Inr rest \<Rightarrow> Inr (bs @ rest)))"

definition utf8_encodable :: "unicode \<Rightarrow> bool" where
  "utf8_encodable s = list_all (\<lambda>cp. cp < 0xD800 \<or> (0xDFFF < cp \<and> cp < 0x110000)) s"

text \<open>
  \<^verbatim>\<open>bytes.decode("utf-8")\<close>: the lead byte gives the length; continuation bytes are
  \<open>0x80\<close> to \<open>0xBF\<close>; overlong forms, surrogates and code points above \<open>0x10FFFF\<close> are
  refused. \<^verbatim>\<open>str.encode("ascii")\<close>, which \<^verbatim>\<open>b64decode\<close> applies to a \<^verbatim>\<open>str\<close> argument,
  refuses every code point from \<open>0x80\<close> on; \<^verbatim>\<open>b64decode\<close> turns that into a \<^verbatim>\<open>ValueError\<close>.
\<close>

definition is_cont :: "byte \<Rightarrow> bool" where
  "is_cont b = (0x80 \<le> unat b \<and> unat b \<le> 0xBF)"

definition cont_bits :: "byte \<Rightarrow> nat" where
  "cont_bits b = unat b - 0x80"

fun utf8_decode :: "byte list \<Rightarrow> py_error + unicode" where
  "utf8_decode [] = Inr []"
| "utf8_decode (b0 # bs) =
     (if unat b0 < 0x80 then emit (unat b0) (utf8_decode bs)
      else if 0xC2 \<le> unat b0 \<and> unat b0 \<le> 0xDF then
        (case bs of
           b1 # rest \<Rightarrow>
             if is_cont b1
             then emit ((unat b0 - 0xC0) * 64 + cont_bits b1) (utf8_decode rest)
             else Inl UnicodeDecodeError
         | _ \<Rightarrow> Inl UnicodeDecodeError)
      else if 0xE0 \<le> unat b0 \<and> unat b0 \<le> 0xEF then
        (case bs of
           b1 # b2 # rest \<Rightarrow>
             if is_cont b1 \<and> is_cont b2
                \<and> 0x800 \<le> (unat b0 - 0xE0) * 4096 + cont_bits b1 * 64 + cont_bits b2
                \<and> \<not> (0xD800 \<le> (unat b0 - 0xE0) * 4096 + cont_bits b1 * 64 + cont_bits b2
                      \<and> (unat b0 - 0xE0) * 4096 + cont_bits b1 * 64 + cont_bits b2 \<le> 0xDFFF)
             then emit ((unat b0 - 0xE0) * 4096 + cont_bits b1 * 64 + cont_bits b2) (utf8_decode rest)
             else Inl UnicodeDecodeError
         | _ \<Rightarrow> Inl UnicodeDecodeError)
      else if 0xF0 \<le> unat b0 \<and> unat b0 \<le> 0xF4 then
        (case bs of
           b1 # b2 # b3 # rest \<Rightarrow>
             if is_cont b1 \<and> is_cont b2 \<and> is_cont b3
                \<and> 0x10000 \<le> (unat b0 - 0xF0) * 262144 + cont_bits b1 * 4096 + cont_bits b2 * 64 + cont_bits b3
                \<and> (unat b0 - 0xF0) * 262144 + cont_bits b1 * 4096 + cont_bits b2 * 64 + cont_bits b3 \<le> 0x10FFFF
             then emit ((unat b0 - 0xF0) * 262144 + cont_bits b1 * 4096 + cont_bits b2 * 64 + cont_bits b3)
                    (utf8_decode rest)
             else Inl UnicodeDecodeError
         | _ \<Rightarrow> Inl UnicodeDecodeError)
      else Inl UnicodeDecodeError)"

definition ascii_encode :: "unicode \<Rightarrow> py_error + byte list" where
  "ascii_encode s = (if list_all (\<lambda>cp. cp < 0x80) s then Inr (map byte_of s) else Inl ValueError)"

subsection \<open>Base64\<close>

text \<open>
  The alphabet: \<open>A\<close> to \<open>Z\<close> stand for 0 to 25, \<open>a\<close> to \<open>z\<close> for 26 to 51, \<open>0\<close> to \<open>9\<close>
  for 52 to 61, \<open>+\<close> for 62 and \<open>/\<close> for 63; the padding is \<open>=\<close>.
\<close>

definition BASE64_PAD :: byte where
  "BASE64_PAD = 61"

definition table_b2a_base64 :: "nat \<Rightarrow> byte" where
  "table_b2a_base64 v =
     byte_of (if v < 26 then v + 65 else if v < 52 then v + 71 else if v < 62 then v - 4
             else if v = 62 then 43 else 47)"

definition table_a2b_base64 :: "byte \<Rightarrow> nat option" where
  "table_a2b_base64 c =
     (if 65 \<le> unat c \<and> unat c \<le> 90 then Some (unat c - 65)
      else if 97 \<le> unat c \<and> unat c \<le> 122 then Some (unat c - 71)
      else if 48 \<le> unat c \<and> unat c \<le> 57 then Some (unat c + 4)
      else if unat c = 43 then Some 62
      else if unat c = 47 then Some 63
      else None)"

text \<open>
  \<^verbatim>\<open>b64encode\<close>: three bytes give four characters; one or two bytes left over give two or
  three characters and padding.
\<close>

fun b64encode :: "byte list \<Rightarrow> byte list" where
  "b64encode [] = []"
| "b64encode [a] =
     [table_b2a_base64 (unat a div 4), table_b2a_base64 (unat a mod 4 * 16), BASE64_PAD, BASE64_PAD]"
| "b64encode [a, b] =
     [table_b2a_base64 (unat a div 4), table_b2a_base64 (unat a mod 4 * 16 + unat b div 16),
      table_b2a_base64 (unat b mod 16 * 4), BASE64_PAD]"
| "b64encode (a # b # c # rest) =
     [table_b2a_base64 (unat a div 4), table_b2a_base64 (unat a mod 4 * 16 + unat b div 16),
      table_b2a_base64 (unat b mod 16 * 4 + unat c div 64), table_b2a_base64 (unat c mod 64)]
     @ b64encode rest"

text \<open>
  The loop of \<^verbatim>\<open>binascii.a2b_base64\<close> in its default mode. \<open>quad_pos\<close> counts the characters
  of the current group, \<open>leftchar\<close> holds the bits not yet written, \<open>pads\<close> the padding seen
  since the last character of the alphabet. A \<open>=\<close> that completes a group of at least two
  characters ends the decoding; every other \<open>=\<close> and every character outside the alphabet
  is skipped. At the end of the input an open group is an error.
\<close>

fun a2b_loop :: "nat \<Rightarrow> nat \<Rightarrow> nat \<Rightarrow> byte list \<Rightarrow> py_error + byte list" where
  "a2b_loop quad_pos leftchar pads [] = (if quad_pos \<noteq> 0 then Inl BinasciiError else Inr [])"
| "a2b_loop quad_pos leftchar pads (this_ch # rest) =
     (if this_ch = BASE64_PAD then
        (if quad_pos \<ge> 2 \<and> quad_pos + (pads + 1) \<ge> 4 then Inr []
         else a2b_loop quad_pos leftchar (if quad_pos \<ge> 2 then pads + 1 else pads) rest)
      else case table_a2b_base64 this_ch of
        None \<Rightarrow> a2b_loop quad_pos leftchar pads rest
      | Some v \<Rightarrow>
          (if quad_pos = 0 then a2b_loop 1 v 0 rest
           else if quad_pos = 1 then
             emit (byte_of (leftchar * 4 + v div 16)) (a2b_loop 2 (v mod 16) 0 rest)
           else if quad_pos = 2 then
             emit (byte_of (leftchar * 16 + v div 4)) (a2b_loop 3 (v mod 4) 0 rest)
           else emit (byte_of (leftchar * 64 + v)) (a2b_loop 0 0 0 rest)))"

definition a2b_base64 :: "byte list \<Rightarrow> py_error + byte list" where
  "a2b_base64 data = a2b_loop 0 0 0 data"

definition b64decode :: "unicode \<Rightarrow> py_error + byte list" where
  "b64decode s = (case ascii_encode s of Inl e \<Rightarrow> Inl e | Inr data \<Rightarrow> a2b_base64 data)"

subsection \<open>The codec of the repository\<close>

text \<open>
  \<^verbatim>\<open>encode\<close> and \<^verbatim>\<open>decode\<close> as in \<^verbatim>\<open>utils.py\<close>. The argument of \<open>encode\<close> is a string or
  a dict; \<^verbatim>\<open>json.dumps\<close> is the parameter \<open>json_dumps\<close>, which returns an error or the text.
  With its default \<^verbatim>\<open>ensure_ascii=True\<close> that text is ASCII, so it is given as a \<open>string\<close>;
  \<open>ustr\<close> turns it into code points.
\<close>

definition ustr :: "string \<Rightarrow> unicode" where
  "ustr s = map of_char s"

datatype 'd encode_arg = Str unicode | Dict 'd

definition decode :: "unicode \<Rightarrow> py_error + unicode" where
  "decode v = (case b64decode v of Inl e \<Rightarrow> Inl e | Inr bs \<Rightarrow> utf8_decode bs)"

definition encode :: "('d \<Rightarrow> py_error + string) \<Rightarrow> 'd encode_arg \<Rightarrow> py_error + unicode" where
  "encode json_dumps v =
     (case (case v of
              Dict d \<Rightarrow> (case json_dumps d of Inl e \<Rightarrow> Inl e | Inr text \<Rightarrow> Inr (ustr text))
            | Str s \<Rightarrow> Inr s) of
        Inl e \<Rightarrow> Inl e
      | Inr s \<Rightarrow>
          (case utf8_encode s of
             Inl e \<Rightarrow> Inl e
           | Inr bs \<Rightarrow> utf8_decode (b64encode bs)))"

text \<open>
  Valid base64 in the words of the specification (no bad framing), after RFC 4648: groups of
  four characters of the alphabet, the last of which may end in one or two \<open>=\<close>.
\<close>

fun spec_valid_base64 :: "unicode \<Rightarrow> bool" where
  "spec_valid_base64 [] = True"
| "spec_valid_base64 [a, b, c, d] =
     (table_a2b_base64 (byte_of a) \<noteq> None \<and> a < 0x80 \<and> table_a2b_base64 (byte_of b) \<noteq> None \<and> b < 0x80
      \<and> ((c = 61 \<and> d = 61)
         \<or> (table_a2b_base64 (byte_of c) \<noteq> None \<and> c < 0x80
            \<and> (d = 61 \<or> (table_a2b_base64 (byte_of d) \<noteq> None \<and> d < 0x80)))))"
| "spec_valid_base64 (a # b # c # d # rest) =
     (table_a2b_base64 (byte_of a) \<noteq> None \<and> a < 0x80 \<and> table_a2b_base64 (byte_of b) \<noteq> None \<and> b < 0x80
      \<and> table_a2b_base64 (byte_of c) \<noteq> None \<and> c < 0x80 \<and> table_a2b_base64 (byte_of d) \<noteq> None \<and> d < 0x80
      \<and> spec_valid_base64 rest)"
| "spec_valid_base64 s = False"

section \<open>Properties of the redactor and of the strict lookup\<close>

lemma redact_item:
  "(case v of PDict m \<Rightarrow> redact v | PList items \<Rightarrow> PList (map redact items) | _ \<Rightarrow> v) = redact v"
  by (cases v) simp_all

lemma redact_PDict:
  "redact (PDict kvs) =
     PDict (map (\<lambda>(key, v). (key, if v = PNone \<or> v = PStr [] then v
         else if key \<in> set REDACT_FIELDS then PStr REDACTED else redact v)) kvs)"
  by (auto simp: redact_item)

lemma collapse_sensitive_id: "sensitive_scalars v \<Longrightarrow> collapse_sensitive (shape v) = shape v"
proof (induction v rule: sensitive_scalars.induct)
  case (1 xs)
  then show ?case by (simp add: list_all_iff)
next
  case (2 kvs)
  have "(if k \<in> set REDACT_FIELDS then SScalar else collapse_sensitive (shape y)) = shape y"
    if "(k, y) \<in> set kvs" for k y
  proof (cases "k \<in> set REDACT_FIELDS")
    case True
    with 2(2) that have "\<not> is_mapping y \<and> \<not> is_list y" by (auto simp: list_all_iff)
    with True show ?thesis by (cases y) simp_all
  next
    case False
    with 2(2) that have "sensitive_scalars y" by (auto simp: list_all_iff)
    with 2(1)[OF that refl False] False show ?thesis by simp
  qed
  then show ?case by auto
qed simp_all

text \<open>
  C1. For a mapping, \<open>redact\<close> returns a mapping with the same keys in the same order; the
  value of each item is unchanged when it is \<open>None\<close> or the empty string (also under a
  sensitive key), else the sentinel \<open>**REDACTED**\<close> when the key is in \<open>REDACT_FIELDS\<close>
  (whatever the type of the value), else the redacted value when it is a mapping or a list,
  else unchanged. The example of the specification is the last conjunct.
\<close>

theorem redact_mapping:
  "\<exists>out. redact (PDict kvs) = PDict out
      \<and> map fst out = map fst kvs
      \<and> (\<forall>i < length kvs.
            snd (out ! i) =
              (let key = fst (kvs ! i); v = snd (kvs ! i) in
               if v = PNone \<or> v = PStr '''' then v
               else if key \<in> set REDACT_FIELDS then PStr ''**REDACTED**''
               else if is_mapping v \<or> is_list v then redact v
               else v))
      \<and> redact (PDict [(''token'', PStr ''abc''), (''name'', PStr ''Max''),
                        (''nested'', PDict [(''deviceId'', PStr ''d1''), (''note'', PStr '''')])])
          = PDict [(''token'', PStr ''**REDACTED**''), (''name'', PStr ''Max''),
                   (''nested'', PDict [(''deviceId'', PStr ''**REDACTED**''), (''note'', PStr '''')])]"
proof -
  let ?f = "\<lambda>(key, v). (key, if v = PNone \<or> v = PStr [] then v
         else if key \<in> set REDACT_FIELDS then PStr REDACTED else redact v)"
  have scalar: "redact v = v" if "\<not> is_mapping v" "\<not> is_list v" for v
    using that by (cases v) simp_all
  have "redact (PDict kvs) = PDict (map ?f kvs)"
    by (rule redact_PDict)
  moreover have "map fst (map ?f kvs) = map fst kvs"
    by (induction kvs) auto
  moreover have "snd (map ?f kvs ! i) =
              (let key = fst (kvs ! i); v = snd (kvs ! i) in
               if v = PNone \<or> v = PStr '''' then v
               else if key \<in> set REDACT_FIELDS then PStr ''**REDACTED**''
               else if is_mapping v \<or> is_list v then redact v
               else v)" if "i < length kvs" for i
    using that scalar by (cases "kvs ! i") (simp add: REDACTED_def)
  moreover have "redact (PDict [(''token'', PStr ''abc''), (''name'', PStr ''Max''),
                        (''nested'', PDict [(''deviceId'', PStr ''d1''), (''note'', PStr '''')])])
          = PDict [(''token'', PStr ''**REDACTED**''), (''name'', PStr ''Max''),
                   (''nested'', PDict [(''deviceId'', PStr ''**REDACTED**''), (''note'', PStr '''')])]"
    by (simp add: REDACTED_def REDACT_FIELDS_def)
  ultimately show ?thesis by blast
qed

theorem redact_mapping_witness:
  "\<exists>out. redact (PDict [(''serial'', PList [PInt 7]), (''pets'', PList [PDict [(''id'', PInt 3)]]),
                        (''id'', PNone), (''count'', PInt 2)]) = PDict out
      \<and> map fst out = [''serial'', ''pets'', ''id'', ''count'']
      \<and> map snd out = [PStr ''**REDACTED**'', PList [PDict [(''id'', PStr ''**REDACTED**'')]],
                        PNone, PInt 2]"
  using redact_mapping [of "[(''serial'', PList [PInt 7]), (''pets'', PList [PDict [(''id'', PInt 3)]]),
                        (''id'', PNone), (''count'', PInt 2)]"]
  by (simp add: REDACTED_def REDACT_FIELDS_def)

text \<open>
  C4, as it holds. Redaction keeps the keys of every mapping, their order and the length of
  every list, except below a sensitive key: the whole value stored there (unless it is
  \<open>None\<close> or the empty string) becomes the sentinel, a scalar, also when it was a mapping or
  a list. So the shape of the result is the shape of the input with every subtree below a
  sensitive key collapsed to a scalar, and it is the shape of the input when no sensitive key
  holds a mapping or a list.
\<close>

theorem redact_shape:
  "shape (redact v) = collapse_sensitive (shape v)
   \<and> (sensitive_scalars v \<longrightarrow> shape (redact v) = shape v)"
proof -
  have "shape (redact v) = collapse_sensitive (shape v)"
  proof (induction v rule: redact.induct)
    case (1 xs)
    then show ?case by simp
  next
    case (2 kvs)
    have "shape (redact y) = collapse_sensitive (shape y)" if "(k, y) \<in> set kvs" "k \<notin> set REDACT_FIELDS" for k y
    proof (cases y)
      case (PList x6)
      with 2(1)[OF that(1) refl _ _ that(2)] show ?thesis by simp
    next
      case (PDict x7)
      with 2(2)[OF that(1) refl _ _ that(2)] show ?thesis by simp
    qed simp_all
    then show ?case
      unfolding redact_PDict by (auto simp: REDACTED_def)
  qed simp_all
  then show ?thesis
    by (simp add: collapse_sensitive_id)
qed

theorem redact_shape_witness:
  "sensitive_scalars (PDict [(''token'', PStr ''abc''), (''pets'', PList [PDict [(''name'', PStr ''Max'')], PInt 1])])
   \<and> shape (redact (PDict [(''token'', PStr ''abc''), (''pets'', PList [PDict [(''name'', PStr ''Max'')], PInt 1])]))
     = SDict [(''token'', SScalar), (''pets'', SList [SDict [(''name'', SScalar)], SScalar])]"
  using redact_shape [of "PDict [(''token'', PStr ''abc''), (''pets'', PList [PDict [(''name'', PStr ''Max'')], PInt 1])]"]
  by (simp add: REDACT_FIELDS_def)

text \<open>
  The claim C4 as the specification states it fails: under the sensitive key \<open>id\<close> a
  mapping is replaced by the sentinel string, so its keys are gone.
\<close>

theorem redact_shape_counterexample:
  "shape (redact (PDict [(''id'', PDict [(''a'', PInt 1)])])) \<noteq> shape (PDict [(''id'', PDict [(''a'', PInt 1)])])"
  by (simp add: REDACT_FIELDS_def)

text \<open>
  C5. Redaction is idempotent: redacting a redacted value changes nothing.
\<close>

theorem redact_idempotent: "redact (redact v) = redact v"
proof (induction v rule: redact.induct)
  case (1 xs)
  then show ?case by simp
next
  case (2 kvs)
  have "redact (redact y) = redact y" if "(k, y) \<in> set kvs" "y \<noteq> PNone" "y \<noteq> PStr []" "k \<notin> set REDACT_FIELDS" for k y
  proof (cases y)
    case (PList x6)
    with 2(1)[OF that(1) refl that(2,3,4)] show ?thesis by simp
  next
    case (PDict x7)
    with 2(2)[OF that(1) refl that(2,3,4)] show ?thesis by simp
  qed simp_all
  moreover have "redact y \<noteq> PNone" "redact y \<noteq> PStr []" if "y \<noteq> PNone" "y \<noteq> PStr []" for y
    using that by (cases y; simp)+
  ultimately show ?case
    unfolding redact_PDict by (auto simp: REDACTED_def)
qed simp_all

theorem redact_idempotent_witness:
  "redact (redact (PDict [(''token'', PStr ''abc''), (''pets'', PList [PDict [(''id'', PInt 1)]])]))
   = PDict [(''token'', PStr ''**REDACTED**''), (''pets'', PList [PDict [(''id'', PStr ''**REDACTED**'')]])]"
  using redact_idempotent [of "PDict [(''token'', PStr ''abc''), (''pets'', PList [PDict [(''id'', PInt 1)]])]"]
  by (simp add: REDACTED_def REDACT_FIELDS_def)

text \<open>
  C10. The strict lookup returns the default when the key is absent or its stored value is
  \<open>None\<close>, and the stored value in every other case; it never raises.
\<close>

theorem strict_get_default:
  "(key \<notin> fst ` set self \<or> map_of self key = Some PNone \<longrightarrow> DictWithStrictDefault_get self key dflt = Inr dflt)
   \<and> (\<forall>v. map_of self key = Some v \<and> v \<noteq> PNone \<longrightarrow> DictWithStrictDefault_get self key dflt = Inr v)"
proof -
  have "key \<in> fst ` set self \<longleftrightarrow> map_of self key \<noteq> None"
    by (simp add: map_of_eq_None_iff)
  then show ?thesis
    by (cases "map_of self key") (simp_all add: DictWithStrictDefault_get_def contains_key_def getitem_def)
qed

theorem strict_get_default_witness:
  "DictWithStrictDefault_get [(''a'', PNone), (''b'', PInt 0)] ''a'' (PInt 5) = Inr (PInt 5)
   \<and> DictWithStrictDefault_get [(''a'', PNone), (''b'', PInt 0)] ''c'' (PInt 5) = Inr (PInt 5)
   \<and> DictWithStrictDefault_get [(''a'', PNone), (''b'', PInt 0)] ''b'' (PInt 5) = Inr (PInt 0)"
  using strict_get_default [of "''a''" "[(''a'', PNone), (''b'', PInt 0)]" "PInt 5"]
    strict_get_default [of "''c''" "[(''a'', PNone), (''b'', PInt 0)]" "PInt 5"]
    strict_get_default [of "''b''" "[(''a'', PNone), (''b'', PInt 0)]" "PInt 5"]
  by simp

lemma redact_keys: "fst \<circ> (\<lambda>(key, v). (key, f key v)) = fst"
  by (auto simp: fun_eq_iff)

text \<open>
  Redaction maps dicts to dicts: keys stay pairwise distinct.
\<close>

theorem redact_wf_value: "wf_value v \<Longrightarrow> wf_value (redact v)"
proof (induction v rule: redact.induct)
  case (1 xs)
  then show ?case by (simp add: list_all_iff)
next
  case (2 kvs)
  have "wf_value (redact y)" if "(k, y) \<in> set kvs" "y \<noteq> PNone" "y \<noteq> PStr []" "k \<notin> set REDACT_FIELDS" for k y
  proof (cases y)
    case (PList x6)
    from 2(3) that(1) have "wf_value y" by (auto simp: list_all_iff)
    with PList 2(1) [OF that(1) refl that(2,3,4) PList] show ?thesis
      by (simp add: list_all_iff)
  next
    case (PDict x7)
    from 2(3) that(1) have "wf_value y" by (auto simp: list_all_iff)
    with 2(2) [OF that(1) refl that(2,3,4) PDict] show ?thesis
      by blast
  qed simp_all
  with 2(3) show ?case
    unfolding redact_PDict by (auto simp: list_all_iff redact_keys)
qed simp_all

theorem redact_wf_value_witness:
  "wf_value (redact (PDict [(''id'', PInt 1), (''pets'', PList [PDict [(''name'', PStr ''Max'')]])]))"
proof -
  have "wf_value (PDict [(''id'', PInt 1), (''pets'', PList [PDict [(''name'', PStr ''Max'')]])])"
    by simp
  then show ?thesis by (rule redact_wf_value)
qed

text \<open>
  Redaction changes nothing in a value that has no sensitive key anywhere.
\<close>

theorem redact_no_sensitive_key: "\<not> has_sensitive_key v \<Longrightarrow> redact v = v"
proof (induction v rule: redact.induct)
  case (1 xs)
  then show ?case by (simp add: list_ex_iff map_idI)
next
  case (2 kvs)
  have "(case x of (key, v) \<Rightarrow> (key, if v = PNone \<or> v = PStr [] then v
         else if key \<in> set REDACT_FIELDS then PStr REDACTED else redact v)) = x"
    if x: "x \<in> set kvs" for x
  proof -
    obtain k y where kv: "x = (k, y)" by (cases x)
    from 2(3) x kv have k: "k \<notin> set REDACT_FIELDS" and y: "\<not> has_sensitive_key y"
      by (auto simp: list_ex_iff)
    have "redact y = y" if "y \<noteq> PNone" "y \<noteq> PStr []"
    proof (cases y)
      case (PList x6)
      with 2(1) [OF x kv [symmetric] that k] y show ?thesis
        by (simp add: list_ex_iff map_idI)
    next
      case (PDict x7)
      with 2(2) [OF x kv [symmetric] that k] y show ?thesis by simp
    qed simp_all
    with k kv show ?thesis by auto
  qed
  then show ?case
    unfolding redact_PDict by (simp add: map_idI)
qed simp_all

theorem redact_no_sensitive_key_witness:
  "redact (PDict [(''name'', PStr ''Max''), (''pets'', PList [PDict [(''age'', PInt 3)]])])
   = PDict [(''name'', PStr ''Max''), (''pets'', PList [PDict [(''age'', PInt 3)]])]"
proof -
  have "\<not> has_sensitive_key (PDict [(''name'', PStr ''Max''), (''pets'', PList [PDict [(''age'', PInt 3)]])])"
    by (simp add: REDACT_FIELDS_def)
  then show ?thesis by (rule redact_no_sensitive_key)
qed

section \<open>Properties of the timestamp normaliser\<close>

lemma takeWhile_digit_stop: "y = [] \<or> \<not> is_digit (hd y) \<Longrightarrow> takeWhile is_digit y = []"
  by (cases y) auto

lemma dropWhile_digit_stop: "y = [] \<or> \<not> is_digit (hd y) \<Longrightarrow> dropWhile is_digit y = y"
  by (cases y) auto

lemma takeWhile_digit_append:
  "y = [] \<or> \<not> is_digit (hd y) \<Longrightarrow> takeWhile is_digit (cs @ y) = takeWhile is_digit cs"
  by (induction cs) (simp_all add: takeWhile_digit_stop)

lemma dropWhile_digit_append:
  "y = [] \<or> \<not> is_digit (hd y) \<Longrightarrow> dropWhile is_digit (cs @ y) = dropWhile is_digit cs @ y"
  by (induction cs) (simp_all add: dropWhile_digit_stop)

lemma re_sub_fraction_append:
  "y = [] \<or> \<not> is_digit (hd y) \<Longrightarrow>
   re_sub_fraction repl (pre @ y) = re_sub_fraction repl pre @ re_sub_fraction repl y"
proof (induction repl pre rule: re_sub_fraction.induct)
  case (1 repl)
  then show ?case by simp
next
  case (2 repl c cs)
  show ?case
  proof (cases "c = CHR ''.'' \<and> takeWhile is_digit cs \<noteq> []")
    case True
    with 2 show ?thesis
      by (simp add: takeWhile_digit_append dropWhile_digit_append)
  next
    case False
    with 2(2)[OF False 2(3)] 2(3) show ?thesis
      by (auto simp: takeWhile_digit_append)
  qed
qed

lemma re_sub_fraction_match:
  assumes "ds \<noteq> []" "list_all is_digit ds" "post = [] \<or> \<not> is_digit (hd post)"
  shows "re_sub_fraction repl (CHR ''.'' # ds @ post) = repl (CHR ''.'' # ds) @ re_sub_fraction repl post"
proof -
  have "takeWhile is_digit ds = ds" "dropWhile is_digit ds = []"
    using assms(2) by (simp_all add: list_all_iff)
  then have "takeWhile is_digit (ds @ post) = ds" "dropWhile is_digit (ds @ post) = post"
    using assms(3) by (simp_all add: takeWhile_digit_stop dropWhile_digit_stop)
  with assms(1) show ?thesis by simp
qed

lemma not_digit_dot: "\<not> is_digit (CHR ''.'')" "\<not> is_digit (CHR ''+'')"
  by (simp_all add: is_digit_def)

lemma normalize_fraction:
  assumes "ds \<noteq> []" "list_all is_digit ds" "post = [] \<or> \<not> is_digit (hd post)"
  shows "re_sub_fraction pad_fraction (pre @ CHR ''.'' # ds @ post)
       = re_sub_fraction pad_fraction pre
         @ CHR ''.'' # take 6 (ds @ replicate (6 - length ds) (CHR ''0''))
         @ re_sub_fraction pad_fraction post"
proof -
  have "re_sub_fraction pad_fraction (pre @ CHR ''.'' # ds @ post)
      = re_sub_fraction pad_fraction pre
        @ re_sub_fraction pad_fraction (CHR ''.'' # ds @ post)"
    by (rule re_sub_fraction_append) (simp add: not_digit_dot)
  also have "re_sub_fraction pad_fraction (CHR ''.'' # ds @ post)
      = pad_fraction (CHR ''.'' # ds)
        @ re_sub_fraction pad_fraction post"
    by (rule re_sub_fraction_match [OF assms])
  also have "pad_fraction (CHR ''.'' # ds)
      = CHR ''.'' # take 6 (ds @ replicate (6 - length ds) (CHR ''0''))"
    by (simp add: pad_fraction_def ljust_def)
  finally show ?thesis by simp
qed


















lemma replace_Z_filter:
  "(if CHR ''Z'' \<in> set s then filter (\<lambda>c. c \<noteq> CHR ''Z'') s else s) = filter (\<lambda>c. c \<noteq> CHR ''Z'') s"
proof (cases "CHR ''Z'' \<in> set s")
  case False
  then have "filter (\<lambda>c. c \<noteq> CHR ''Z'') s = s"
    by (simp add: filter_id_conv) blast
  with False show ?thesis by simp
qed simp

lemma re_sub_fraction_utc: "re_sub_fraction pad_fraction ''+00:00'' = ''+00:00''"
  by code_simp

lemma re_sub_fraction_utc_suffix:
  "re_sub_fraction pad_fraction (t @ ''+00:00'') = re_sub_fraction pad_fraction t @ ''+00:00''"
  using re_sub_fraction_append [of "''+00:00''" pad_fraction t]
  by (simp only: re_sub_fraction_utc) (simp add: not_digit_dot)

lemma normalize_timestamp_eq:
  "normalize_timestamp s =
     (if sublist ''+00:00'' (filter (\<lambda>c. c \<noteq> CHR ''Z'') s)
      then re_sub_fraction pad_fraction (filter (\<lambda>c. c \<noteq> CHR ''Z'') s)
      else re_sub_fraction pad_fraction (filter (\<lambda>c. c \<noteq> CHR ''Z'') s) @ ''+00:00'')"
  unfolding normalize_timestamp_def replace_Z_filter
  by (simp add: Let_def re_sub_fraction_utc_suffix)

lemma to_timestamp_Some:
  "s \<noteq> [] \<Longrightarrow> to_timestamp (Some s) =
     (case fromisoformat (normalize_timestamp s) of Inl e \<Rightarrow> Inl e | Inr dt \<Rightarrow> Inr (Some dt))"
  by (simp add: to_timestamp_def)




text \<open>
  A trailing \<open>Z\<close> and a trailing \<open>+00:00\<close> mean the same: both timestamps are normalised to
  the same text, hence give the same result.
\<close>

theorem to_timestamp_Z_utc:
  "CHR ''Z'' \<notin> set s \<and> \<not> sublist ''+00:00'' s \<longrightarrow>
     to_timestamp (Some (s @ ''Z'')) = to_timestamp (Some (s @ ''+00:00''))"
proof -
  have "normalize_timestamp (s @ ''Z'') = normalize_timestamp (s @ ''+00:00'')"
    if z: "CHR ''Z'' \<notin> set s" and u: "\<not> sublist ''+00:00'' s"
  proof -
    from z have f: "filter (\<lambda>c. c \<noteq> CHR ''Z'') s = s"
      by (simp add: filter_id_conv) blast
    have "sublist ''+00:00'' (s @ ''+00:00'')"
      by (rule sublist_append_leftI)
    with f u show ?thesis
      by (simp add: normalize_timestamp_eq re_sub_fraction_utc_suffix)
  qed
  then show ?thesis
    by (simp add: to_timestamp_def)
qed

theorem to_timestamp_Z_utc_witness:
  "to_timestamp (Some ''2023-05-01T10:00:00.5Z'') = to_timestamp (Some ''2023-05-01T10:00:00.5+00:00'')"
proof -
  have "CHR ''Z'' \<notin> set ''2023-05-01T10:00:00.5'' \<and> \<not> sublist ''+00:00'' ''2023-05-01T10:00:00.5''"
    by code_simp
  with to_timestamp_Z_utc [of "''2023-05-01T10:00:00.5''"] show ?thesis by simp
qed

text \<open>
  C6. Every fraction component (a dot followed by one or more digits, up to the first
  character that is not a digit) of the timestamp, after its \<open>Z\<close>s are deleted, is rewritten
  to the dot and exactly six digits: padded with zeros when shorter, cut when longer. The
  two timestamps of the specification give the instant of
  \<open>2023-05-01T10:00:00.500000+00:00\<close>.
\<close>

theorem to_timestamp_fraction:
  "(filter (\<lambda>c. c \<noteq> CHR ''Z'') s = pre @ CHR ''.'' # ds @ post
      \<and> ds \<noteq> [] \<and> list_all is_digit ds \<and> (post = [] \<or> \<not> is_digit (hd post)) \<longrightarrow>
    normalize_timestamp s =
      re_sub_fraction pad_fraction pre
      @ CHR ''.'' # take 6 (ds @ replicate (6 - length ds) (CHR ''0''))
      @ re_sub_fraction pad_fraction
          (post @ (if sublist ''+00:00'' (filter (\<lambda>c. c \<noteq> CHR ''Z'') s) then [] else ''+00:00'')))
   \<and> to_timestamp (Some ''2023-05-01T10:00:00.5'') =
       Inr (Some \<lparr>year = 2023, month = 5, day = 1, hour = 10, minute = 0, second = 0,
                   microsecond = 500000, tzinfo = Some 0\<rparr>)
   \<and> to_timestamp (Some ''2023-05-01T10:00:00.500000123'') =
       Inr (Some \<lparr>year = 2023, month = 5, day = 1, hour = 10, minute = 0, second = 0,
                   microsecond = 500000, tzinfo = Some 0\<rparr>)
   \<and> to_timestamp (Some ''2023-05-01T10:00:00.500000+00:00'') =
       Inr (Some \<lparr>year = 2023, month = 5, day = 1, hour = 10, minute = 0, second = 0,
                   microsecond = 500000, tzinfo = Some 0\<rparr>)"
proof -
  have gen: "normalize_timestamp s =
      re_sub_fraction pad_fraction pre
      @ CHR ''.'' # take 6 (ds @ replicate (6 - length ds) (CHR ''0''))
      @ re_sub_fraction pad_fraction
          (post @ (if sublist ''+00:00'' (filter (\<lambda>c. c \<noteq> CHR ''Z'') s) then [] else ''+00:00''))"
    if s: "filter (\<lambda>c. c \<noteq> CHR ''Z'') s = pre @ CHR ''.'' # ds @ post"
      and ds: "ds \<noteq> []" "list_all is_digit ds" and post: "post = [] \<or> \<not> is_digit (hd post)"
  proof (cases "sublist ''+00:00'' (filter (\<lambda>c. c \<noteq> CHR ''Z'') s)")
    case True
    then show ?thesis
      using normalize_fraction [OF ds post, of pre] by (simp add: normalize_timestamp_eq s)
  next
    case False
    have p: "re_sub_fraction pad_fraction (post @ ''+00:00'')
             = re_sub_fraction pad_fraction post @ ''+00:00''"
      using re_sub_fraction_append [of "''+00:00''" pad_fraction post]
      by (simp add: not_digit_dot re_sub_fraction_utc)
    from False show ?thesis
      using normalize_fraction [OF ds post, of pre] by (simp add: normalize_timestamp_eq s p)
  qed
  have e1: "to_timestamp (Some ''2023-05-01T10:00:00.5'') =
       Inr (Some \<lparr>year = 2023, month = 5, day = 1, hour = 10, minute = 0, second = 0,
                   microsecond = 500000, tzinfo = Some 0\<rparr>)"
    by code_simp
  have e2: "to_timestamp (Some ''2023-05-01T10:00:00.500000123'') =
       Inr (Some \<lparr>year = 2023, month = 5, day = 1, hour = 10, minute = 0, second = 0,
                   microsecond = 500000, tzinfo = Some 0\<rparr>)"
    by code_simp
  have e3: "to_timestamp (Some ''2023-05-01T10:00:00.500000+00:00'') =
       Inr (Some \<lparr>year = 2023, month = 5, day = 1, hour = 10, minute = 0, second = 0,
                   microsecond = 500000, tzinfo = Some 0\<rparr>)"
    by code_simp
  from gen e1 e2 e3 show ?thesis by blast
qed

theorem to_timestamp_fraction_witness:
  "normalize_timestamp ''2023-05-01T10:00:00.123456789Z'' = ''2023-05-01T10:00:00.123456+00:00''
   \<and> normalize_timestamp ''2023-05-01T10:00:00.12+00:00'' = ''2023-05-01T10:00:00.120000+00:00''"
proof -
  have a: "filter (\<lambda>c. c \<noteq> CHR ''Z'') ''2023-05-01T10:00:00.123456789Z''
           = ''2023-05-01T10:00:00'' @ CHR ''.'' # ''123456789'' @ []
         \<and> ''123456789'' \<noteq> [] \<and> list_all is_digit ''123456789''
         \<and> ([] = [] \<or> \<not> is_digit (hd []))"
    by code_simp
  have b: "re_sub_fraction pad_fraction ''2023-05-01T10:00:00''
      @ CHR ''.'' # take 6 (''123456789'' @ replicate (6 - length ''123456789'') (CHR ''0''))
      @ re_sub_fraction pad_fraction
          ([] @ (if sublist ''+00:00'' (filter (\<lambda>c. c \<noteq> CHR ''Z'') ''2023-05-01T10:00:00.123456789Z'')
                 then [] else ''+00:00''))
      = ''2023-05-01T10:00:00.123456+00:00''"
    by code_simp
  have c: "filter (\<lambda>c. c \<noteq> CHR ''Z'') ''2023-05-01T10:00:00.12+00:00''
           = ''2023-05-01T10:00:00'' @ CHR ''.'' # ''12'' @ ''+00:00''
         \<and> ''12'' \<noteq> [] \<and> list_all is_digit ''12''
         \<and> (''+00:00'' = [] \<or> \<not> is_digit (hd ''+00:00''))"
    by code_simp
  have d: "re_sub_fraction pad_fraction ''2023-05-01T10:00:00''
      @ CHR ''.'' # take 6 (''12'' @ replicate (6 - length ''12'') (CHR ''0''))
      @ re_sub_fraction pad_fraction
          (''+00:00'' @ (if sublist ''+00:00'' (filter (\<lambda>c. c \<noteq> CHR ''Z'') ''2023-05-01T10:00:00.12+00:00'')
                 then [] else ''+00:00''))
      = ''2023-05-01T10:00:00.120000+00:00''"
    by code_simp
  from to_timestamp_fraction [of "''2023-05-01T10:00:00.123456789Z''" "''2023-05-01T10:00:00''"
      "''123456789''" "[]"] a
  have "normalize_timestamp ''2023-05-01T10:00:00.123456789Z'' = ''2023-05-01T10:00:00.123456+00:00''"
    unfolding b by blast
  moreover
  from to_timestamp_fraction [of "''2023-05-01T10:00:00.12+00:00''" "''2023-05-01T10:00:00''"
      "''12''" "''+00:00''"] c
  have "normalize_timestamp ''2023-05-01T10:00:00.12+00:00'' = ''2023-05-01T10:00:00.120000+00:00''"
    unfolding d by blast
  ultimately show ?thesis by simp
qed

text \<open>
  C7. The result is absent exactly when the input is absent or the empty string. For a
  non-empty input whose normalised text the parser rejects, the parser's error is raised;
  \<open>not-a-date\<close> raises \<^verbatim>\<open>ValueError\<close>.
\<close>

theorem to_timestamp_absent_or_error:
  "(to_timestamp ts = Inr None \<longleftrightarrow> ts = None \<or> ts = Some [])
   \<and> (\<forall>s e. s \<noteq> [] \<and> fromisoformat (normalize_timestamp s) = Inl e \<longrightarrow> to_timestamp (Some s) = Inl e)
   \<and> to_timestamp (Some ''not-a-date'') = Inl ValueError"
proof -
  have "to_timestamp ts = Inr None \<longleftrightarrow> ts = None \<or> ts = Some []"
    by (auto simp: to_timestamp_def split: option.splits sum.splits)
  moreover have "to_timestamp (Some ''not-a-date'') = Inl ValueError"
    by code_simp
  ultimately show ?thesis
    by (simp add: to_timestamp_Some)
qed

theorem to_timestamp_absent_or_error_witness:
  "to_timestamp (Some ''2023-13-01T10:00:00Z'') = Inl ValueError
   \<and> to_timestamp (Some ''2023-13-01T10:00:00Z'') \<noteq> Inr None"
proof -
  have a: "''2023-13-01T10:00:00Z'' \<noteq> []
           \<and>  fromisoformat (normalize_timestamp ''2023-13-01T10:00:00Z'') = Inl ValueError"
    by code_simp
  from to_timestamp_absent_or_error [of "Some ''2023-13-01T10:00:00Z''"] a
  have "to_timestamp (Some ''2023-13-01T10:00:00Z'') = Inl ValueError" by blast
  moreover from to_timestamp_absent_or_error [of "Some ''2023-13-01T10:00:00Z''"]
  have "to_timestamp (Some ''2023-13-01T10:00:00Z'') \<noteq> Inr None" by simp
  ultimately show ?thesis by simp
qed

text \<open>
  C8 fails on the code. For the date \<open>2023-05-01\<close> the normalised text is
  \<open>2023-05-01+00:00\<close>; the parser takes \<open>+\<close> for the separator between date and time and
  \<open>00:00\<close> for the time, so the result is a datetime without offset, although the docstring
  of \<^verbatim>\<open>to_timestamp\<close> promises an offset-aware one.
\<close>

theorem to_timestamp_date_only_naive:
  "to_timestamp (Some ''2023-05-01'') =
     Inr (Some \<lparr>year = 2023, month = 5, day = 1, hour = 0, minute = 0, second = 0,
                 microsecond = 0, tzinfo = None\<rparr>)"
  by code_simp

theorem to_timestamp_date_only_naive_witness:
  "\<exists>dt. to_timestamp (Some ''2023-05-01'') = Inr (Some dt) \<and> tzinfo dt = None"
  using to_timestamp_date_only_naive by simp

section \<open>Properties of the codec\<close>

lemma unat_byte_of: "n < 256 \<Longrightarrow> unat (byte_of n) = n"
  by (simp add: byte_of_def unat_of_nat)

lemma unat_byte_less: "unat (b :: byte) < 256"
  using unsigned_less [of b, where ?'a = nat] by simp

lemma byte_of_unat: "byte_of (unat b) = b"
  by (simp add: byte_of_def)

lemma unat_b2a:
  "v < 64 \<Longrightarrow> unat (table_b2a_base64 v) =
     (if v < 26 then v + 65 else if v < 52 then v + 71 else if v < 62 then v - 4
      else if v = 62 then 43 else 47)"
  unfolding table_b2a_base64_def by (rule unat_byte_of) auto

lemma a2b_b2a: "v < 64 \<Longrightarrow> table_a2b_base64 (table_b2a_base64 v) = Some v"
  unfolding table_a2b_base64_def by (auto simp: unat_b2a)

lemma b2a_not_pad: "v < 64 \<Longrightarrow> table_b2a_base64 v \<noteq> BASE64_PAD"
proof
  assume v: "v < 64" and "table_b2a_base64 v = BASE64_PAD"
  then have "unat (table_b2a_base64 v) = 61" by (simp add: BASE64_PAD_def)
  with v show False
    by (auto simp: unat_b2a split: if_splits)
qed

lemma b2a_ascii: "v < 64 \<Longrightarrow> unat (table_b2a_base64 v) < 128"
  by (auto simp: unat_b2a)

lemma a2b_loop_b2a:
  "v < 64 \<Longrightarrow>
   a2b_loop quad_pos leftchar pads (table_b2a_base64 v # rest) =
     (if quad_pos = 0 then a2b_loop 1 v 0 rest
      else if quad_pos = 1 then
        emit (byte_of (leftchar * 4 + v div 16)) (a2b_loop 2 (v mod 16) 0 rest)
      else if quad_pos = 2 then
        emit (byte_of (leftchar * 16 + v div 4)) (a2b_loop 3 (v mod 4) 0 rest)
      else emit (byte_of (leftchar * 64 + v)) (a2b_loop 0 0 0 rest))"
  by (simp add: a2b_b2a b2a_not_pad)

lemma div16_less: "(b::nat) < 256 \<Longrightarrow> b div 16 < 16"
  by linarith

lemma div64_less: "(c::nat) < 256 \<Longrightarrow> c div 64 < 4"
  by linarith

lemma sextets_byte1: "(a::nat) div 4 * 4 + (a mod 4 * 16 + b div 16) div 16 = a" if "b < 256"
proof -
  have "(a mod 4 * 16 + b div 16) div 16 = a mod 4"
    using div16_less [OF that] by simp
  then show ?thesis by simp
qed

lemma sextets_byte2: "((a::nat) mod 4 * 16 + b div 16) mod 16 * 16 + (b mod 16 * 4 + c div 64) div 4 = b"
  if "b < 256" "c < 256"
proof -
  have "(a mod 4 * 16 + b div 16) mod 16 = b div 16"
    using div16_less [OF that(1)] by simp
  moreover have "(b mod 16 * 4 + c div 64) div 4 = b mod 16"
    using div64_less [OF that(2)] by simp
  ultimately show ?thesis by simp
qed

lemma sextets_byte3: "((b::nat) mod 16 * 4 + c div 64) mod 4 * 64 + c mod 64 = c" if "c < 256"
proof -
  have "(b mod 16 * 4 + c div 64) mod 4 = c div 64"
    using div64_less [OF that] by simp
  then show ?thesis by simp
qed

lemma sextet_bounds:
  fixes a b c :: nat
  assumes "a < 256" "b < 256" "c < 256"
  shows "a div 4 < 64" "a mod 4 * 16 + b div 16 < 64" "b mod 16 * 4 + c div 64 < 64" "c mod 64 < 64"
    "a mod 4 * 16 < 64" "b mod 16 * 4 < 64"
proof -
  have "a mod 4 < 4" "b mod 16 < 16" by simp_all
  with div16_less [OF assms(2)] div64_less [OF assms(3)] assms(1)
  show "a div 4 < 64" "a mod 4 * 16 + b div 16 < 64" "b mod 16 * 4 + c div 64 < 64" "c mod 64 < 64"
    "a mod 4 * 16 < 64" "b mod 16 * 4 < 64"
    by linarith+
qed

lemma a2b_loop_pad2: "a2b_loop 2 leftchar 0 [BASE64_PAD, BASE64_PAD] = Inr []"
  by simp

lemma a2b_loop_pad1: "a2b_loop 3 leftchar 0 [BASE64_PAD] = Inr []"
  by simp

lemma a2b_loop_b64encode: "a2b_loop 0 leftchar pads (b64encode bs) = Inr bs"
proof (induction bs arbitrary: leftchar pads rule: b64encode.induct)
  case 1
  then show ?case by simp
next
  case (2 a)
  have "a2b_loop 0 leftchar pads (b64encode [a])
      = emit (byte_of (unat a div 4 * 4 + unat a mod 4 * 16 div 16)) (Inr [])"
    using sextet_bounds [OF unat_byte_less [of a] unat_byte_less [of a] unat_byte_less [of a]]
    by (simp add: a2b_loop_b2a a2b_loop_pad2 del: a2b_loop.simps)
  also have "unat a div 4 * 4 + unat a mod 4 * 16 div 16 = unat a"
    by simp
  finally show ?case by (simp add: emit_def byte_of_unat)
next
  case (3 a b)
  have "a2b_loop 0 leftchar pads (b64encode [a, b])
      = emit (byte_of (unat a div 4 * 4 + (unat a mod 4 * 16 + unat b div 16) div 16))
          (emit (byte_of ((unat a mod 4 * 16 + unat b div 16) mod 16 * 16 + unat b mod 16 * 4 div 4))
             (Inr []))"
    using sextet_bounds [OF unat_byte_less [of a] unat_byte_less [of b] unat_byte_less [of b]]
    by (simp add: a2b_loop_b2a a2b_loop_pad1 del: a2b_loop.simps)
  also have "unat a div 4 * 4 + (unat a mod 4 * 16 + unat b div 16) div 16 = unat a"
    by (rule sextets_byte1 [OF unat_byte_less])
  also have "(unat a mod 4 * 16 + unat b div 16) mod 16 * 16 + unat b mod 16 * 4 div 4 = unat b"
    using div16_less [OF unat_byte_less [of b]] by simp
  finally show ?case by (simp add: emit_def byte_of_unat)
next
  case (4 a b c rest)
  have "a2b_loop 0 leftchar pads (b64encode (a # b # c # rest))
      = emit (byte_of (unat a div 4 * 4 + (unat a mod 4 * 16 + unat b div 16) div 16))
          (emit (byte_of ((unat a mod 4 * 16 + unat b div 16) mod 16 * 16
                          + (unat b mod 16 * 4 + unat c div 64) div 4))
             (emit (byte_of ((unat b mod 16 * 4 + unat c div 64) mod 4 * 64 + unat c mod 64))
                (a2b_loop 0 0 0 (b64encode rest))))"
    using sextet_bounds [OF unat_byte_less [of a] unat_byte_less [of b] unat_byte_less [of c]]
    by (simp add: a2b_loop_b2a del: a2b_loop.simps)
  also have "unat a div 4 * 4 + (unat a mod 4 * 16 + unat b div 16) div 16 = unat a"
    by (rule sextets_byte1 [OF unat_byte_less])
  also have "(unat a mod 4 * 16 + unat b div 16) mod 16 * 16
               + (unat b mod 16 * 4 + unat c div 64) div 4 = unat b"
    by (rule sextets_byte2 [OF unat_byte_less unat_byte_less])
  also have "(unat b mod 16 * 4 + unat c div 64) mod 4 * 64 + unat c mod 64 = unat c"
    by (rule sextets_byte3 [OF unat_byte_less])
  finally show ?case by (simp add: emit_def byte_of_unat "4.IH")
qed

lemma a2b_base64_b64encode: "a2b_base64 (b64encode bs) = Inr bs"
  by (simp add: a2b_base64_def a2b_loop_b64encode)

lemma utf8_lead2: "(cp::nat) < 0x800 \<Longrightarrow> 0x80 \<le> cp \<Longrightarrow> 0xC0 + cp div 64 < 256 \<and> 0xC2 \<le> 0xC0 + cp div 64 \<and> 0xC0 + cp div 64 \<le> 0xDF"
  by linarith

lemma utf8_lead3: "(cp::nat) < 0x10000 \<Longrightarrow> 0xE0 + cp div 4096 < 256 \<and> 0xE0 + cp div 4096 \<le> 0xEF"
  by linarith

lemma utf8_lead4: "(cp::nat) < 0x110000 \<Longrightarrow> 0x10000 \<le> cp \<Longrightarrow> 0xF0 + cp div 262144 < 256 \<and> 0xF0 + cp div 262144 \<le> 0xF4"
  by linarith

lemma div_mod_scaled: "(q::nat) div 64 * (64 * k) + q mod 64 * k = q * k"
proof -
  have "(q div 64 * 64 + q mod 64) * k = q * k"
    by (simp only: div_mult_mod_eq)
  then show ?thesis
    by (simp only: add_mult_distrib mult.assoc)
qed

lemma split3: "(cp::nat) div 4096 * 4096 + cp div 64 mod 64 * 64 + cp mod 64 = cp"
proof -
  have "cp div 4096 = cp div 64 div 64" by (simp add: div_mult2_eq)
  then have "cp div 4096 * 4096 + cp div 64 mod 64 * 64 = cp div 64 * 64"
    using div_mod_scaled [of "cp div 64" 64] by simp
  then show ?thesis by simp
qed

lemma split4: "(cp::nat) div 262144 * 262144 + cp div 4096 mod 64 * 4096 + cp div 64 mod 64 * 64 + cp mod 64 = cp"
proof -
  have "cp div 262144 = cp div 4096 div 64" by (simp add: div_mult2_eq)
  then have "cp div 262144 * 262144 + cp div 4096 mod 64 * 4096 = cp div 4096 * 4096"
    using div_mod_scaled [of "cp div 4096" 4096] by simp
  then show ?thesis using split3 [of cp] by simp
qed

lemma cont_byte:
  "m < 64 \<Longrightarrow> is_cont (byte_of (0x80 + m))" "m < 64 \<Longrightarrow> cont_bits (byte_of (0x80 + m)) = m"
  by (simp_all add: is_cont_def cont_bits_def unat_byte_of)

lemma utf8_decode_encode_char:
  assumes "utf8_encode_char cp = Inr bs"
  shows "utf8_decode (bs @ rest) = emit cp (utf8_decode rest)"
proof -
  consider (one) "cp < 0x80"
    | (two) "0x80 \<le> cp" "cp < 0x800"
    | (three) "0x800 \<le> cp" "cp < 0x10000" "\<not> (0xD800 \<le> cp \<and> cp \<le> 0xDFFF)"
    | (four) "0x10000 \<le> cp" "cp < 0x110000"
    | (bad) "(0xD800 \<le> cp \<and> cp \<le> 0xDFFF) \<or> 0x110000 \<le> cp"
    by linarith
  then show ?thesis
  proof cases
    case one
    with assms show ?thesis
      by (auto simp: utf8_encode_char_def unat_byte_of)
  next
    case two
    with assms have bs: "bs = [byte_of (0xC0 + cp div 64), byte_of (0x80 + cp mod 64)]"
      by (simp add: utf8_encode_char_def)
    from utf8_lead2 [OF two(2) two(1)] show ?thesis
      unfolding bs by (simp add: unat_byte_of cont_byte)
  next
    case three
    with assms have bs: "bs = [byte_of (0xE0 + cp div 4096), byte_of (0x80 + cp div 64 mod 64),
        byte_of (0x80 + cp mod 64)]"
      by (simp add: utf8_encode_char_def)
    from utf8_lead3 [OF three(2)] three show ?thesis
      unfolding bs by (simp add: unat_byte_of cont_byte split3)
  next
    case four
    with assms have bs: "bs = [byte_of (0xF0 + cp div 262144), byte_of (0x80 + cp div 4096 mod 64),
        byte_of (0x80 + cp div 64 mod 64), byte_of (0x80 + cp mod 64)]"
      by (simp add: utf8_encode_char_def)
    from utf8_lead4 [OF four(2) four(1)] four show ?thesis
      unfolding bs by (simp add: unat_byte_of cont_byte split4)
  next
    case bad
    with assms show ?thesis
      by (auto simp: utf8_encode_char_def split: if_splits)
  qed
qed

lemma utf8_decode_encode: "utf8_encode s = Inr bs \<Longrightarrow> utf8_decode bs = Inr s"
proof (induction s arbitrary: bs)
  case Nil
  then show ?case by simp
next
  case (Cons cp s)
  from Cons.prems obtain b1 b2 where b: "utf8_encode_char cp = Inr b1" "utf8_encode s = Inr b2" "bs = b1 @ b2"
    by (auto split: sum.splits)
  from utf8_decode_encode_char [OF b(1), of b2] Cons.IH [OF b(2)] b(3) show ?case
    by (simp add: emit_def)
qed

lemma utf8_encode_total: "utf8_encodable s \<Longrightarrow> \<exists>bs. utf8_encode s = Inr bs"
proof (induction s)
  case Nil
  then show ?case by simp
next
  case (Cons cp s)
  then obtain bs where "utf8_encode s = Inr bs"
    by (auto simp: utf8_encodable_def)
  moreover from Cons.prems have "\<exists>b. utf8_encode_char cp = Inr b"
    by (auto simp: utf8_encodable_def utf8_encode_char_def)
  ultimately show ?case by auto
qed

lemma utf8_decode_ascii: "list_all (\<lambda>b. unat b < 0x80) bs \<Longrightarrow> utf8_decode bs = Inr (map unat bs)"
  by (induction bs) (simp_all add: emit_def)

lemma b64encode_ascii: "list_all (\<lambda>b. unat b < 0x80) (b64encode bs)"
proof (induction bs rule: b64encode.induct)
  case 1
  then show ?case by simp
next
  case (2 a)
  from sextet_bounds [OF unat_byte_less [of a] unat_byte_less [of a] unat_byte_less [of a]]
  show ?case by (simp add: b2a_ascii BASE64_PAD_def)
next
  case (3 a b)
  from sextet_bounds [OF unat_byte_less [of a] unat_byte_less [of b] unat_byte_less [of b]]
  show ?case by (simp add: b2a_ascii BASE64_PAD_def)
next
  case (4 a b c rest)
  from sextet_bounds [OF unat_byte_less [of a] unat_byte_less [of b] unat_byte_less [of c]] 4
  show ?case by (simp add: b2a_ascii)
qed

lemma ascii_encode_unat:
  "list_all (\<lambda>b. unat b < 0x80) bs \<Longrightarrow> ascii_encode (map unat bs) = Inr bs"
  by (simp add: ascii_encode_def list_all_iff byte_of_unat comp_def)

lemma decode_b64encode: "decode (map unat (b64encode bs)) = utf8_decode bs"
  by (simp add: decode_def b64decode_def ascii_encode_unat [OF b64encode_ascii] a2b_base64_b64encode)

lemma encode_Str:
  "utf8_encode s = Inr bs \<Longrightarrow> encode json_dumps (Str s) = Inr (map unat (b64encode bs))"
  by (simp add: encode_def utf8_decode_ascii [OF b64encode_ascii])

lemma encode_Dict:
  "json_dumps m = Inr t \<Longrightarrow> encode json_dumps (Dict m) = encode json_dumps (Str (ustr t))"
  by (simp add: encode_def)

lemma utf8_encodable_ustr: "utf8_encodable (ustr t)"
proof -
  have "of_char c < (0xD800 :: nat)" for c :: char
    using nat_of_char_less_256 [of c] by linarith
  then show ?thesis
    by (simp add: utf8_encodable_def ustr_def list_all_iff)
qed

lemma roundtrip_Str:
  assumes "utf8_encodable s"
  shows "\<exists>t. encode json_dumps (Str s) = Inr t \<and> decode t = Inr s"
proof -
  from utf8_encode_total [OF assms] obtain bs where bs: "utf8_encode s = Inr bs" by blast
  then have "decode (map unat (b64encode bs)) = Inr s"
    by (simp add: decode_b64encode utf8_decode_encode)
  with encode_Str [OF bs, of json_dumps] show ?thesis by blast
qed

lemma utf8_encode_fails: "\<not> utf8_encodable s \<Longrightarrow> utf8_encode s = Inl UnicodeEncodeError"
proof (induction s)
  case Nil
  then show ?case by (simp add: utf8_encodable_def)
next
  case (Cons cp s)
  show ?case
  proof (cases "cp < 0xD800 \<or> (0xDFFF < cp \<and> cp < 0x110000)")
    case True
    with Cons.prems have "\<not> utf8_encodable s" by (simp add: utf8_encodable_def)
    moreover from True have "\<exists>b. utf8_encode_char cp = Inr b"
      by (auto simp: utf8_encode_char_def)
    ultimately show ?thesis using Cons.IH by auto
  next
    case False
    then have "utf8_encode_char cp = Inl UnicodeEncodeError"
      by (auto simp: utf8_encode_char_def)
    then show ?thesis by simp
  qed
qed

lemma isl_emit: "isl (emit x r) = isl r"
  by (cases r) (simp_all add: emit_def)

lemma a2b_pad_None: "table_a2b_base64 BASE64_PAD = None"
  by (simp add: table_a2b_base64_def BASE64_PAD_def)

lemma a2b_loop_data:
  "table_a2b_base64 x = Some v \<Longrightarrow>
   a2b_loop quad_pos leftchar pads (x # rest) =
     (if quad_pos = 0 then a2b_loop 1 v 0 rest
      else if quad_pos = 1 then
        emit (byte_of (leftchar * 4 + v div 16)) (a2b_loop 2 (v mod 16) 0 rest)
      else if quad_pos = 2 then
        emit (byte_of (leftchar * 16 + v div 4)) (a2b_loop 3 (v mod 4) 0 rest)
      else emit (byte_of (leftchar * 64 + v)) (a2b_loop 0 0 0 rest))"
  using a2b_pad_None by auto

lemma a2b_loop_filter:
  "a2b_loop quad_pos leftchar pads
     (filter (\<lambda>b. b = BASE64_PAD \<or> table_a2b_base64 b \<noteq> None) data)
   = a2b_loop quad_pos leftchar pads data"
  by (induction data arbitrary: quad_pos leftchar pads) (auto split: option.splits)

lemma a2b_loop_no_pad:
  "BASE64_PAD \<notin> set data \<Longrightarrow>
   isl (a2b_loop quad_pos leftchar pads data)
     \<longleftrightarrow> (quad_pos + length (filter (\<lambda>b. table_a2b_base64 b \<noteq> None) data)) mod 4 \<noteq> 0"
  if "quad_pos < 4"
  using that
proof (induction data arbitrary: quad_pos leftchar pads)
  case Nil
  then show ?case by simp
next
  case (Cons x data)
  show ?case
  proof (cases "table_a2b_base64 x")
    case None
    with Cons show ?thesis by auto
  next
    case (Some v)
    from Cons.prems consider "quad_pos = 0" | "quad_pos = 1" | "quad_pos = 2" | "quad_pos = 3"
      by linarith
    then show ?thesis
    proof cases
      case 1
      with Cons.IH [of 1 v 0] Cons.prems Some show ?thesis
        by (simp add: a2b_loop_data del: a2b_loop.simps)
    next
      case 2
      with Cons.IH [of 2 "v mod 16" 0] Cons.prems Some show ?thesis
        by (simp add: a2b_loop_data isl_emit del: a2b_loop.simps)
    next
      case 3
      with Cons.IH [of 3 "v mod 4" 0] Cons.prems Some show ?thesis
        by (simp add: a2b_loop_data isl_emit del: a2b_loop.simps)
    next
      case 4
      with Cons.IH [of 0 0 0] Cons.prems Some show ?thesis
        by (simp add: a2b_loop_data isl_emit del: a2b_loop.simps)
    qed
  qed
qed

lemma a2b_loop_errors: "a2b_loop quad_pos leftchar pads data = Inl e \<Longrightarrow> e = BinasciiError"
  by (induction data arbitrary: quad_pos leftchar pads)
    (auto simp: emit_def split: if_splits option.splits sum.splits)

lemma byte_of_pad: "cp < 0x80 \<Longrightarrow> byte_of cp = BASE64_PAD \<longleftrightarrow> cp = 61"
proof
  assume "cp < 0x80" "byte_of cp = BASE64_PAD"
  then have "unat (byte_of cp) = 61" by (simp add: BASE64_PAD_def)
  with \<open>cp < 0x80\<close> show "cp = 61" by (simp add: unat_byte_of)
qed (simp add: byte_of_def BASE64_PAD_def)

lemma spec_valid_ascii: "spec_valid_base64 s \<Longrightarrow> list_all (\<lambda>cp. cp < 0x80) s"
  by (induction s rule: spec_valid_base64.induct) auto

lemma spec_valid_a2b:
  "spec_valid_base64 s \<Longrightarrow> \<not> isl (a2b_loop 0 leftchar pads (map byte_of s))"
proof (induction s arbitrary: leftchar pads rule: spec_valid_base64.induct)
  case 1
  then show ?case by simp
next
  case (2 a b c d)
  then obtain va vb where ab: "table_a2b_base64 (byte_of a) = Some va" "table_a2b_base64 (byte_of b) = Some vb"
    by auto
  from 2 consider (pp) "c = 61" "d = 61"
    | (dp) vc where "table_a2b_base64 (byte_of c) = Some vc" "d = 61"
    | (dd) vc vd where "table_a2b_base64 (byte_of c) = Some vc" "table_a2b_base64 (byte_of d) = Some vd"
    by auto
  then show ?case
  proof cases
    case pp
    have "byte_of 61 = BASE64_PAD" by (simp add: byte_of_def BASE64_PAD_def)
    with pp ab show ?thesis
      by (simp add: a2b_loop_data isl_emit a2b_loop_pad2 del: a2b_loop.simps)
  next
    case dp
    have "byte_of 61 = BASE64_PAD" by (simp add: byte_of_def BASE64_PAD_def)
    with dp ab show ?thesis
      by (simp add: a2b_loop_data isl_emit a2b_loop_pad1 del: a2b_loop.simps)
  next
    case dd
    with ab show ?thesis
      by (simp add: a2b_loop_data isl_emit del: a2b_loop.simps) simp
  qed
next
  case (3 a b c d v va)
  then obtain x1 x2 x3 x4 where x: "table_a2b_base64 (byte_of a) = Some x1"
      "table_a2b_base64 (byte_of b) = Some x2" "table_a2b_base64 (byte_of c) = Some x3"
      "table_a2b_base64 (byte_of d) = Some x4"
    by auto
  from 3 have "\<not> isl (a2b_loop 0 0 0 (map byte_of (v # va)))" by simp
  with x show ?case
    by (simp add: a2b_loop_data isl_emit del: a2b_loop.simps)
qed simp_all

text \<open>
  C3. For every string \<open>s\<close>, \<open>decode(encode(s)) == s\<close>. The strings are those of well-formed
  text, as the contract of \<open>encode\<close> in the specification has it: \<open>utf8_encodable\<close>, the strings
  that UTF-8 can encode. For every mapping \<open>m\<close> that the serialiser turns into a text \<open>t\<close>,
  \<open>decode(encode(m))\<close> is the text \<open>t\<close> itself, not a mapping.
\<close>

theorem codec_roundtrip:
  "(utf8_encodable s \<longrightarrow> (\<exists>t. encode json_dumps (Str s) = Inr t \<and> decode t = Inr s))
   \<and> (\<forall>t. json_dumps m = Inr t \<longrightarrow>
         (\<exists>v. encode json_dumps (Dict m) = Inr v \<and> decode v = Inr (ustr t)))"
proof -
  have "\<exists>v. encode json_dumps (Dict m) = Inr v \<and> decode v = Inr (ustr t)"
    if "json_dumps m = Inr t" for t
    using roundtrip_Str [OF utf8_encodable_ustr, of json_dumps t] encode_Dict [of json_dumps m t] that
    by simp
  then show ?thesis
    using roundtrip_Str [of s json_dumps] by blast
qed

theorem codec_roundtrip_witness:
  "(\<exists>t. encode (\<lambda>m :: unit. Inr (''{'' @ [CHR 0x22, CHR ''a'', CHR 0x22] @ '': 1}'')) (Str [0x2713, 0x1F600, 0x41]) = Inr t
        \<and> decode t = Inr [0x2713, 0x1F600, 0x41])
   \<and> (\<exists>v. encode (\<lambda>m :: unit. Inr (''{'' @ [CHR 0x22, CHR ''a'', CHR 0x22] @ '': 1}'')) (Dict ()) = Inr v
        \<and> decode v = Inr (ustr (''{'' @ [CHR 0x22, CHR ''a'', CHR 0x22] @ '': 1}'')))"
proof -
  have a: "utf8_encodable [0x2713, 0x1F600, 0x41]"
    by (simp add: utf8_encodable_def)
  from codec_roundtrip [of "[0x2713, 0x1F600, 0x41]"
      "\<lambda>m :: unit. Inr (''{'' @ [CHR 0x22, CHR ''a'', CHR 0x22] @ '': 1}'')" "()"] a
  show ?thesis by blast
qed

text \<open>
  Outside well-formed text: a Python string may hold a lone surrogate, which UTF-8 cannot
  encode; for such a string \<open>encode\<close> raises \<^verbatim>\<open>UnicodeEncodeError\<close>.
\<close>

theorem encode_not_encodable:
  "\<not> utf8_encodable s \<longrightarrow> encode json_dumps (Str s) = Inl UnicodeEncodeError"
proof
  assume "\<not> utf8_encodable s"
  from utf8_encode_fails [OF this] show "encode json_dumps (Str s) = Inl UnicodeEncodeError"
    by (simp add: encode_def)
qed

theorem encode_not_encodable_witness:
  "encode (\<lambda>m :: unit. Inr []) (Str [0x41, 0xD800]) = Inl UnicodeEncodeError"
proof -
  have "\<not> utf8_encodable [0x41, 0xD800]"
    by (simp add: utf8_encodable_def)
  with encode_not_encodable [of "[0x41, 0xD800]" "\<lambda>m :: unit. Inr []"] show ?thesis
    by blast
qed

text \<open>
  C9, as it holds. \<open>decode\<close> raises exactly when the base64 step raises or the decoded bytes
  are not valid UTF-8. The base64 step raises \<^verbatim>\<open>ValueError\<close> when the input has a
  character outside ASCII; otherwise characters that are neither in the base64 alphabet nor
  \<open>=\<close> are discarded, not rejected, so the result is that of the input without them; an
  input without \<open>=\<close> fails in the base64 step exactly when the number of its alphabet
  characters is not a multiple of four. Every input that is valid base64 passes the base64
  step, so that \<open>decode\<close> raises on it exactly when the decoded bytes are not valid UTF-8;
  the base64 encoding of any bytes decodes to what the UTF-8 decoder makes of these bytes.
\<close>

theorem decode_errors:
  "(isl (decode s) \<longleftrightarrow> isl (b64decode s) \<or> (\<exists>data. b64decode s = Inr data \<and> isl (utf8_decode data)))
   \<and> (\<not> list_all (\<lambda>cp. cp < 0x80) s \<longrightarrow> decode s = Inl ValueError)
   \<and> (list_all (\<lambda>cp. cp < 0x80) s \<longrightarrow>
        decode (filter (\<lambda>cp. cp = 61 \<or> table_a2b_base64 (byte_of cp) \<noteq> None) s) = decode s)
   \<and> (list_all (\<lambda>cp. cp < 0x80) s \<and> 61 \<notin> set s \<longrightarrow>
        (b64decode s = Inl BinasciiError
           \<longleftrightarrow> length (filter (\<lambda>cp. table_a2b_base64 (byte_of cp) \<noteq> None) s) mod 4 \<noteq> 0)
        \<and> (isl (b64decode s) \<longleftrightarrow> b64decode s = Inl BinasciiError))
   \<and> (spec_valid_base64 s \<longrightarrow> (\<exists>bs. b64decode s = Inr bs \<and> decode s = utf8_decode bs))
   \<and> decode (map unat (b64encode bs)) = utf8_decode bs"
proof -
  have steps: "isl (decode s) \<longleftrightarrow> isl (b64decode s) \<or> (\<exists>data. b64decode s = Inr data \<and> isl (utf8_decode data))"
    by (cases "b64decode s") (simp_all add: decode_def)
  have nonascii: "decode s = Inl ValueError" if "\<not> list_all (\<lambda>cp. cp < 0x80) s"
    using that by (simp add: decode_def b64decode_def ascii_encode_def)
  have junk: "decode (filter (\<lambda>cp. cp = 61 \<or> table_a2b_base64 (byte_of cp) \<noteq> None) s) = decode s"
    if asc: "list_all (\<lambda>cp. cp < 0x80) s"
  proof -
    let ?keep = "\<lambda>cp. cp = 61 \<or> table_a2b_base64 (byte_of cp) \<noteq> None"
    have "filter ?keep s = filter ((\<lambda>b. b = BASE64_PAD \<or> table_a2b_base64 b \<noteq> None) \<circ> byte_of) s"
      using asc by (intro filter_cong) (auto simp: list_all_iff byte_of_pad)
    then have "map byte_of (filter ?keep s)
        = filter (\<lambda>b. b = BASE64_PAD \<or> table_a2b_base64 b \<noteq> None) (map byte_of s)"
      by (simp only: filter_map)
    then have "a2b_base64 (map byte_of (filter ?keep s)) = a2b_base64 (map byte_of s)"
      unfolding a2b_base64_def by (simp only: a2b_loop_filter)
    moreover have "list_all (\<lambda>cp. cp < 0x80) (filter ?keep s)"
      using asc by (auto simp: list_all_iff)
    ultimately show ?thesis
      using asc unfolding decode_def b64decode_def ascii_encode_def by (simp only: if_True sum.case)
  qed
  have nopad: "(b64decode s = Inl BinasciiError
           \<longleftrightarrow> length (filter (\<lambda>cp. table_a2b_base64 (byte_of cp) \<noteq> None) s) mod 4 \<noteq> 0)
        \<and> (isl (b64decode s) \<longleftrightarrow> b64decode s = Inl BinasciiError)"
    if asc: "list_all (\<lambda>cp. cp < 0x80) s" and np: "61 \<notin> set s"
  proof -
    have "byte_of x \<noteq> BASE64_PAD" if "x \<in> set s" for x
      using that asc np byte_of_pad [of x] by (auto simp: list_all_iff)
    then have "BASE64_PAD \<notin> set (map byte_of s)"
      by (metis imageE list.set_map)
    from a2b_loop_no_pad [OF _ this, of 0 0 0]
    have "isl (a2b_base64 (map byte_of s))
        \<longleftrightarrow> length (filter (\<lambda>cp. table_a2b_base64 (byte_of cp) \<noteq> None) s) mod 4 \<noteq> 0"
      by (simp add: a2b_base64_def filter_map comp_def)
    moreover have "isl (a2b_base64 (map byte_of s)) \<longleftrightarrow> a2b_base64 (map byte_of s) = Inl BinasciiError"
      using a2b_loop_errors [of 0 0 0 "map byte_of s"]
      by (cases "a2b_base64 (map byte_of s)") (auto simp: a2b_base64_def)
    ultimately show ?thesis
      using asc by (simp add: b64decode_def ascii_encode_def)
  qed
  have valid: "\<exists>bs. b64decode s = Inr bs \<and> decode s = utf8_decode bs" if "spec_valid_base64 s"
  proof -
    from spec_valid_a2b [OF that, of 0 0] obtain bs where "a2b_base64 (map byte_of s) = Inr bs"
      by (cases "a2b_base64 (map byte_of s)") (auto simp: a2b_base64_def)
    with spec_valid_ascii [OF that] show ?thesis
      by (simp add: decode_def b64decode_def ascii_encode_def)
  qed
  from steps nonascii junk nopad valid decode_b64encode [of bs] show ?thesis by blast
qed

theorem decode_errors_witness:
  "decode (ustr ''aGk='') = Inr (ustr ''hi'')
   \<and> decode (ustr ''a G-k=!'') = Inr (ustr ''hi'')
   \<and> b64decode (ustr ''aGk'') = Inl BinasciiError
   \<and> decode [0x61, 0xE9] = Inl ValueError
   \<and> (\<exists>bs. b64decode (ustr ''aGk='') = Inr bs)"
proof -
  have na: "\<not> list_all (\<lambda>cp. cp < 0x80) [0x61, 0xE9 :: nat]"
    by simp
  have v: "spec_valid_base64 (ustr ''aGk='')"
    by (simp add: ustr_def table_a2b_base64_def byte_of_def)
  have asc: "list_all (\<lambda>cp. cp < 0x80) (ustr ''a G-k=!'')" "list_all (\<lambda>cp. cp < 0x80) (ustr ''aGk'')"
    by (simp_all add: ustr_def)
  have f: "filter (\<lambda>cp. cp = 61 \<or> table_a2b_base64 (byte_of cp) \<noteq> None) (ustr ''a G-k=!'') = ustr ''aGk=''"
    by (simp add: ustr_def table_a2b_base64_def byte_of_def)
  have n: "61 \<notin> set (ustr ''aGk'')"
    "length (filter (\<lambda>cp. table_a2b_base64 (byte_of cp) \<noteq> None) (ustr ''aGk'')) mod 4 \<noteq> 0"
    by (simp_all add: ustr_def table_a2b_base64_def byte_of_def)
  have e: "b64encode [104, 105] = map byte_of (ustr ''aGk='')"
    by (simp add: ustr_def table_b2a_base64_def byte_of_def BASE64_PAD_def)
  have u: "utf8_decode [104, 105] = Inr (ustr ''hi'')"
    by (simp add: ustr_def emit_def)
  have m: "map unat (map byte_of (ustr ''aGk='')) = ustr ''aGk=''"
    by (simp add: ustr_def byte_of_def)
  from decode_errors [of "ustr ''aGk=''" "[104, 105]"] have "decode (ustr ''aGk='') = Inr (ustr ''hi'')"
    unfolding e m u by blast
  moreover from decode_errors [of "ustr ''a G-k=!''"] asc(1)
  have "decode (ustr ''a G-k=!'') = decode (ustr ''aGk='')"
    unfolding f by metis
  moreover from decode_errors [of "ustr ''aGk''"] asc(2) n
  have "b64decode (ustr ''aGk'') = Inl BinasciiError"
    by blast
  moreover from decode_errors [of "[0x61, 0xE9]"] na
  have "decode [0x61, 0xE9] = Inl ValueError"
    by blast
  moreover from decode_errors [of "ustr ''aGk=''"] v
  have "\<exists>bs. b64decode (ustr ''aGk='') = Inr bs"
    by blast
  ultimately show ?thesis by simp
qed

text \<open>
  The claim C9 as the specification states it fails: \<open>aGk=!\<close> is not valid base64 (its length
  is not a multiple of four and \<open>!\<close> is outside the alphabet), yet \<open>decode\<close> does not raise;
  it returns \<open>hi\<close>.
\<close>

theorem decode_errors_counterexample:
  "\<not> spec_valid_base64 (ustr ''aGk=!'') \<and> decode (ustr ''aGk=!'') = Inr (ustr ''hi'')"
  by (simp add: ustr_def decode_def b64decode_def ascii_encode_def a2b_base64_def
      table_a2b_base64_def byte_of_def BASE64_PAD_def emit_def)

end
